theory Spec2Isabelle
  imports Complex_Main
begin

section \<open>The incremental k-SAT solver of incremental\_cmassman.py\<close>

text \<open>
  The source is one Python file: the class \<open>IncrementalkSAT\<close> (an exhaustive
  backtracking satisfiability search), \<open>time_solver\<close> (one timed search) and
  \<open>run_ksat_cases\<close> (the batch loop over parsed problems). Python integers are
  unbounded, so literals are \<open>int\<close>. Exceptions are values of \<open>error\<close>; a
  function that can raise returns \<open>error + 'a\<close>. The mutable assignment buffer is
  passed in and returned. The interpreter's recursion limit and running time are not part
  of the model.
\<close>

subsection \<open>Errors and list indexing\<close>

datatype error = ValueError | IndexError | SystemExit string

text \<open>
  \<open>xs[i]\<close> on a Python list: a negative index counts from the end, and an index
  outside the list raises IndexError.
\<close>

definition getitem :: "'a list \<Rightarrow> int \<Rightarrow> error + 'a" where
  "getitem xs i =
     (if i < 0
      then (if - i \<le> int (length xs) then Inr (xs ! nat (int (length xs) + i))
            else Inl IndexError)
      else (if i < int (length xs) then Inr (xs ! nat i) else Inl IndexError))"

text \<open>
  A buffer entry is \<open>None\<close> (unassigned), \<open>True\<close> or \<open>False\<close>; used as a
  condition, \<open>None\<close> counts as false.
\<close>

definition truthy :: "bool option \<Rightarrow> bool" where
  "truthy v = (v = Some True)"

subsection \<open>The class IncrementalkSAT\<close>

record IncrementalkSAT =
  clauses :: "int list list"
  num_vars :: int

text \<open>
  \<open>get_num_vars\<close>: \<open>max(abs(lit) for clause in self.clauses for lit in clause)\<close>.
  It reads only \<open>self.clauses\<close> (the constructor calls it before \<open>num_vars\<close>
  exists), so the model takes the clause list. \<open>max\<close> of an empty sequence raises
  ValueError.
\<close>

definition get_num_vars :: "int list list \<Rightarrow> error + int" where
  "get_num_vars cls =
     (case concat (map (map abs) cls) of
        [] \<Rightarrow> Inl ValueError
      | m # ms \<Rightarrow> Inr (fold max ms m))"

text \<open>The constructor \<open>__init__\<close>.\<close>

definition IncrementalkSAT_init :: "int list list \<Rightarrow> error + IncrementalkSAT" where
  "IncrementalkSAT_init cls =
     (case get_num_vars cls of
        Inl e \<Rightarrow> Inl e
      | Inr n \<Rightarrow> Inr \<lparr>clauses = cls, num_vars = n\<rparr>)"

text \<open>
  The condition inside \<open>any\<close> for one literal:
  \<open>(lit > 0 and assignment[lit - 1]) or (lit < 0 and not assignment[abs(lit) - 1])\<close>.
  The buffer is read only on the side whose sign test holds; a literal 0 reads nothing
  and is false.
\<close>

definition lit_true :: "bool option list \<Rightarrow> int \<Rightarrow> error + bool" where
  "lit_true assignment lit =
     (if lit > 0 then
        (case getitem assignment (lit - 1) of
           Inl e \<Rightarrow> Inl e
         | Inr v \<Rightarrow> Inr (truthy v))
      else if lit < 0 then
        (case getitem assignment (\<bar>lit\<bar> - 1) of
           Inl e \<Rightarrow> Inl e
         | Inr v \<Rightarrow> Inr (\<not> truthy v))
      else Inr False)"

text \<open>\<open>any(... for lit in clause)\<close>: stops at the first true literal.\<close>

fun any_lit :: "bool option list \<Rightarrow> int list \<Rightarrow> error + bool" where
  "any_lit assignment [] = Inr False"
| "any_lit assignment (lit # rest) =
     (case lit_true assignment lit of
        Inl e \<Rightarrow> Inl e
      | Inr True \<Rightarrow> Inr True
      | Inr False \<Rightarrow> any_lit assignment rest)"

text \<open>The loop of \<open>is_satisfied\<close>: returns False at the first clause with no true literal.\<close>

fun all_clauses :: "bool option list \<Rightarrow> int list list \<Rightarrow> error + bool" where
  "all_clauses assignment [] = Inr True"
| "all_clauses assignment (clause # rest) =
     (case any_lit assignment clause of
        Inl e \<Rightarrow> Inl e
      | Inr False \<Rightarrow> Inr False
      | Inr True \<Rightarrow> all_clauses assignment rest)"

definition is_satisfied :: "IncrementalkSAT \<Rightarrow> bool option list \<Rightarrow> error + bool" where
  "is_satisfied self assignment = all_clauses assignment (clauses self)"

text \<open>
  The closure \<open>backtrack(index)\<close> of \<open>incremental_search\<close>. It mutates the
  enclosing \<open>assignment\<close>, so the model returns the buffer beside the result. Storing
  at \<open>assignment[index]\<close> raises IndexError when \<open>index\<close> is outside the buffer.
\<close>

function backtrack ::
  "IncrementalkSAT \<Rightarrow> nat \<Rightarrow> bool option list \<Rightarrow> (error + bool) \<times> bool option list" where
  "backtrack self index assignment =
     (if int index = num_vars self then (is_satisfied self assignment, assignment)
      else if length assignment \<le> index then (Inl IndexError, assignment)
      else
        (case backtrack self (index + 1) (assignment[index := Some True]) of
           (Inl e, a1) \<Rightarrow> (Inl e, a1)
         | (Inr True, a1) \<Rightarrow> (Inr True, a1)
         | (Inr False, a1) \<Rightarrow>
             (case backtrack self (index + 1) (a1[index := Some False]) of
                (Inl e, a2) \<Rightarrow> (Inl e, a2)
              | (Inr True, a2) \<Rightarrow> (Inr True, a2)
              | (Inr False, a2) \<Rightarrow> (Inr False, a2[index := None]))))"
  by pat_completeness auto

text \<open>
  The second recursive call starts from the buffer the first one returned, so the
  termination proof needs that a call returns a buffer of the length it was given.
\<close>

lemma backtrack_length_dom:
  "backtrack_dom (self, index, assignment) \<Longrightarrow>
     length (snd (backtrack self index assignment)) = length assignment"
proof (induction self index assignment rule: backtrack.pinduct)
  case (1 self index assignment)
  show ?case
  proof (cases "int index = num_vars self \<or> length assignment \<le> index")
    case True
    then show ?thesis using "1.hyps" by (auto simp: backtrack.psimps)
  next
    case False
    obtain r1 a1 where c1: "backtrack self (index + 1) (assignment[index := Some True]) = (r1, a1)"
      by (cases "backtrack self (index + 1) (assignment[index := Some True])")
    from False "1.IH"(1) c1 have l1: "length a1 = length assignment" by simp
    obtain r2 a2 where c2: "backtrack self (index + 1) (a1[index := Some False]) = (r2, a2)"
      by (cases "backtrack self (index + 1) (a1[index := Some False])")
    have l2: "r1 = Inr False \<Longrightarrow> length a2 = length assignment"
      using False "1.IH"(2)[of r1 a1 False] c1 c2 l1 by simp
    show ?thesis
      using False c1 c2 l1 l2 "1.hyps"
      by (auto simp: backtrack.psimps split: sum.splits bool.splits)
  qed
qed

text \<open>
  Every call is in the accessible part of the recursion: the distance from \<open>index\<close>
  to the end of the buffer drops with each recursive call.
\<close>

lemma backtrack_dom_all: "All backtrack_dom"
proof (relation "measure (\<lambda>(self, index, assignment). length assignment - index)")
  show "wf (measure (\<lambda>(self, index, assignment). length assignment - index))" by simp
next
  fix self :: IncrementalkSAT and index :: nat and assignment :: "bool option list"
  assume "int index \<noteq> num_vars self" "\<not> length assignment \<le> index"
  then show "((self, index + 1, assignment[index := Some True]), (self, index, assignment))
      \<in> measure (\<lambda>(self, index, assignment). length assignment - index)"
    by simp
next
  fix self :: IncrementalkSAT and index :: nat and assignment :: "bool option list"
    and x y b
  assume a: "int index \<noteq> num_vars self" "\<not> length assignment \<le> index"
    and r: "(x, y) = backtrack self (index + 1) (assignment[index := Some True])"
    and d: "backtrack_dom (self, index + 1, assignment[index := Some True])"
  from backtrack_length_dom[OF d] r[symmetric] have "length y = length assignment" by simp
  with a show "((self, index + 1, y[index := Some False]), (self, index, assignment))
      \<in> measure (\<lambda>(self, index, assignment). length assignment - index)"
    by simp
qed

termination backtrack
  by (rule backtrack_dom_all)

declare backtrack.simps [simp del]

text \<open>
  \<open>incremental_search\<close>: a fresh buffer \<open>[None] * self.num_vars\<close> (empty when
  \<open>num_vars\<close> is not positive), then \<open>backtrack(0)\<close>.
\<close>

definition incremental_search :: "IncrementalkSAT \<Rightarrow> error + bool" where
  "incremental_search self =
     (let assignment = replicate (nat (num_vars self)) None in
      case fst (backtrack self 0 assignment) of
        Inl e \<Rightarrow> Inl e
      | Inr True \<Rightarrow> Inr True
      | Inr False \<Rightarrow> Inr False)"

text \<open>
  Constructing the engine on a clause list and searching, as \<open>time_solver\<close> does
  between its two clock readings.
\<close>

definition solve :: "int list list \<Rightarrow> error + bool" where
  "solve cls =
     (case IncrementalkSAT_init cls of
        Inl e \<Rightarrow> Inl e
      | Inr solver \<Rightarrow> incremental_search solver)"

subsection \<open>One timed search\<close>

text \<open>
  \<open>time.time()\<close> reads the wall clock. The clock is a parameter of the model: the
  reading returned by the \<open>t\<close>-th call (counting from 0) is \<open>clock t\<close>, and every
  function that reads the clock returns how many readings have been made. Readings are
  real numbers here; the code has floats. \<open>time_solver\<close> constructs the engine before
  the first reading, so an exception of the constructor leaves the clock untouched.
\<close>

definition time_solver ::
  "(nat \<Rightarrow> real) \<Rightarrow> int list list \<Rightarrow> nat \<Rightarrow> (error + real \<times> bool) \<times> nat" where
  "time_solver clock cls t =
     (case IncrementalkSAT_init cls of
        Inl e \<Rightarrow> (Inl e, t)
      | Inr solver \<Rightarrow>
          (let start_time = clock t in
           case incremental_search solver of
             Inl e \<Rightarrow> (Inl e, t + 1)
           | Inr satisfiable \<Rightarrow>
               (let end_time = clock (t + 1) in
                (Inr (end_time - start_time, satisfiable), t + 2))))"

subsection \<open>The batch runner run\_ksat\_cases\<close>

text \<open>
  One parsed problem is the dictionary the parser builds, with the keys \<open>num_vars\<close>,
  \<open>num_clauses\<close>, \<open>clauses\<close> and \<open>satisfiability\<close>; the fields carry the prefix
  \<open>p_\<close> because the engine already has fields \<open>clauses\<close> and \<open>num_vars\<close>. The
  label is the fourth cell of the comment row (\<open>'S'\<close>, \<open>'U'\<close> or any other text) or
  \<open>None\<close>. The parser is not modelled: the runner is given the list of problems it
  would return.
\<close>

record problem =
  p_num_vars :: int
  p_num_clauses :: int
  p_clauses :: "int list list"
  p_satisfiability :: "string option"

text \<open>
  What the runner writes: rows of the output CSV file (the header row and one Result
  Record per processed problem) and printed lines (one status line per processed problem,
  which shows \<open>len(clauses)\<close> where the CSV row has the declared clause count, and the
  mismatch notice). The text formatting of the printed line is left out.
\<close>

datatype csv_row = Header "string list" | Row int int real bool "string option"

datatype out_line = Status int nat real bool "string option" | Mismatch bool "string option"

text \<open>
  The state of a run: the clock readings made so far, the three accumulated lists (the
  list \<open>times\<close> of the source is \<open>times_list\<close>), the CSV file and the standard output.
\<close>

record run_state =
  clock_reads :: nat
  sizes :: "int list"
  times_list :: "real list"
  answers :: "bool list"
  csv_rows :: "csv_row list"
  stdout :: "out_line list"

text \<open>
  The condition of the mismatch check:
  \<open>(solver_result and satisfiability == 'U') or (not solver_result and satisfiability == 'S')\<close>.
\<close>

definition mismatch :: "bool \<Rightarrow> string option \<Rightarrow> bool" where
  "mismatch solver_result satisfiability =
     ((solver_result \<and> satisfiability = Some ''U'') \<or>
      (\<not> solver_result \<and> satisfiability = Some ''S''))"

text \<open>
  The straight-line part of the loop body after the search: three appends, the printed
  status line and the CSV row. The count appended to \<open>sizes\<close> and written to the row is
  \<open>problem['num_vars']\<close>.
\<close>

definition record_result :: "problem \<Rightarrow> real \<Rightarrow> bool \<Rightarrow> run_state \<Rightarrow> run_state" where
  "record_result p elapsed_time solver_result st =
     st\<lparr>sizes := sizes st @ [p_num_vars p],
        times_list := times_list st @ [elapsed_time],
        answers := answers st @ [solver_result],
        stdout := stdout st @
          [Status (p_num_vars p) (length (p_clauses p)) elapsed_time solver_result
             (p_satisfiability p)],
        csv_rows := csv_rows st @
          [Row (p_num_vars p) (p_num_clauses p) elapsed_time solver_result
             (p_satisfiability p)]\<rparr>"

definition exit_message :: string where
  "exit_message = ''Stopping the program due to mismatched results.''"

text \<open>
  The loop \<open>for problem in problems\<close>. An exception of \<open>time_solver\<close> leaves the loop;
  \<open>sys.exit\<close> raises SystemExit after the record of the mismatching problem has been
  written and the notice printed.
\<close>

fun run_loop ::
  "(nat \<Rightarrow> real) \<Rightarrow> problem list \<Rightarrow> run_state \<Rightarrow> (error + unit) \<times> run_state" where
  "run_loop clock [] st = (Inr (), st)"
| "run_loop clock (p # ps) st =
     (case time_solver clock (p_clauses p) (clock_reads st) of
        (Inl e, t) \<Rightarrow> (Inl e, st\<lparr>clock_reads := t\<rparr>)
      | (Inr (elapsed_time, solver_result), t) \<Rightarrow>
          (let st1 = record_result p elapsed_time solver_result (st\<lparr>clock_reads := t\<rparr>) in
           if mismatch solver_result (p_satisfiability p)
           then (Inl (SystemExit exit_message),
                 st1\<lparr>stdout := stdout st1 @ [Mismatch solver_result (p_satisfiability p)]\<rparr>)
           else run_loop clock ps st1))"

definition csv_header :: "string list" where
  "csv_header = [''Number of Variables'', ''Number of Clauses'', ''Time (seconds)'',
                 ''Satisfiable (Solver)'', ''Expected'']"

text \<open>The state when the loop starts: empty lists, the header row written.\<close>

definition initial_state :: run_state where
  "initial_state = \<lparr>clock_reads = 0, sizes = [], times_list = [], answers = [],
          csv_rows = [Header csv_header], stdout = []\<rparr>"

definition run_ksat_cases ::
  "(nat \<Rightarrow> real) \<Rightarrow> problem list \<Rightarrow>
     (error + int list \<times> real list \<times> bool list) \<times> run_state" where
  "run_ksat_cases clock problems =
     (case run_loop clock problems initial_state of
        (Inl e, st) \<Rightarrow> (Inl e, st)
      | (Inr u, st) \<Rightarrow> (Inr (sizes st, times_list st, answers st), st))"

subsection \<open>Satisfiability as the specification words it\<close>

text \<open>
  These two definitions follow the specification, not the code. A total assignment to the
  variables \<open>1..N\<close> is a list of \<open>N\<close> booleans, the value of variable \<open>v\<close>
  at position \<open>v - 1\<close>. A literal's variable is its magnitude; a positive literal is
  true iff its variable is True, a negative literal is true iff its variable is False.
  A clause set is satisfied when every clause has at least one true literal.
\<close>

definition spec_literal_true :: "bool list \<Rightarrow> int \<Rightarrow> bool" where
  "spec_literal_true vs lit =
     (if lit > 0 then vs ! (nat \<bar>lit\<bar> - 1) = True
      else if lit < 0 then vs ! (nat \<bar>lit\<bar> - 1) = False
      else False)"

definition spec_satisfies :: "bool list \<Rightarrow> int list list \<Rightarrow> bool" where
  "spec_satisfies vs cls = list_all (\<lambda>clause. list_ex (spec_literal_true vs) clause) cls"

text \<open>Every literal of the clause list has magnitude at most \<open>n\<close>.\<close>

definition lits_within :: "nat \<Rightarrow> int list list \<Rightarrow> bool" where
  "lits_within n cls = list_all (\<lambda>clause. list_all (\<lambda>lit. \<bar>lit\<bar> \<le> int n) clause) cls"

subsection \<open>The calls the search makes\<close>

text \<open>
  \<open>invoked self index a\<close>: during \<open>incremental_search\<close>, \<open>backtrack(index)\<close> is
  called with the buffer holding \<open>a\<close>. The top call is \<open>backtrack(0)\<close> on the fresh
  buffer. A call that is not at a leaf and can store at \<open>index\<close> first calls
  \<open>backtrack(index + 1)\<close> after storing True; when that call returns False, leaving
  the buffer as \<open>a1\<close>, it stores False and calls \<open>backtrack(index + 1)\<close> again.
\<close>

inductive invoked :: "IncrementalkSAT \<Rightarrow> nat \<Rightarrow> bool option list \<Rightarrow> bool"
  for self :: IncrementalkSAT where
  top_call: "invoked self 0 (replicate (nat (num_vars self)) None)"
| try_True:
    "invoked self index a \<Longrightarrow> int index \<noteq> num_vars self \<Longrightarrow> index < length a \<Longrightarrow>
     invoked self (index + 1) (a[index := Some True])"
| try_False:
    "invoked self index a \<Longrightarrow> int index \<noteq> num_vars self \<Longrightarrow> index < length a \<Longrightarrow>
     backtrack self (index + 1) (a[index := Some True]) = (Inr False, a1) \<Longrightarrow>
     invoked self (index + 1) (a1[index := Some False])"

text \<open>Exactly the entries below \<open>index\<close> are assigned.\<close>

definition prefix_assigned :: "nat \<Rightarrow> bool option list \<Rightarrow> bool" where
  "prefix_assigned index a = list_all (\<lambda>j. (a ! j \<noteq> None) = (j < index)) [0..<length a]"

text \<open>
  The engine for the clauses \<open>[1], [-1]\<close> of the specification's testable properties,
  as the constructor builds it; the concrete input of several checks below.
\<close>

definition contradiction_engine :: IncrementalkSAT where
  "contradiction_engine = \<lparr>clauses = [[1], [- 1]], num_vars = 1\<rparr>"

subsection \<open>Notions used in the proofs about the runner\<close>

text \<open>
  \<open>answer p\<close> is the boolean the search gives on \<open>p\<close> (False when it gives none);
  \<open>consistent p\<close> says that the search gives a boolean that does not contradict the
  label; \<open>processed\<close> is the state after one problem has been searched and recorded,
  \<open>all_processed\<close> the state after a list of them; \<open>result_rows\<close> builds Result Records
  from problems, elapsed times and answers.
\<close>

definition answer :: "problem \<Rightarrow> bool" where
  "answer p = (solve (p_clauses p) = Inr True)"

definition processed :: "(nat \<Rightarrow> real) \<Rightarrow> problem \<Rightarrow> bool \<Rightarrow> run_state \<Rightarrow> run_state" where
  "processed clock p b st =
     record_result p (clock (clock_reads st + 1) - clock (clock_reads st)) b
       (st\<lparr>clock_reads := clock_reads st + 2\<rparr>)"

definition consistent :: "problem \<Rightarrow> bool" where
  "consistent p = (\<exists>b. solve (p_clauses p) = Inr b \<and> \<not> mismatch b (p_satisfiability p))"

definition all_processed :: "(nat \<Rightarrow> real) \<Rightarrow> problem list \<Rightarrow> run_state \<Rightarrow> run_state" where
  "all_processed clock ps st = foldl (\<lambda>s p. processed clock p (answer p) s) st ps"

definition result_rows :: "problem list \<Rightarrow> real list \<Rightarrow> bool list \<Rightarrow> csv_row list" where
  "result_rows ps ts bs =
     map (\<lambda>(p, t, b). Row (p_num_vars p) (p_num_clauses p) t b (p_satisfiability p))
       (zip ps (zip ts bs))"

subsection \<open>Concrete inputs\<close>

text \<open>
  Two clocks (one advancing by a second per reading, one set back between its first two
  readings) and three problems over the clause \<open>[1]\<close>: labelled Satisfiable, labelled
  Unsatisfiable, and declaring five variables.
\<close>

definition ticking_clock :: "nat \<Rightarrow> real" where
  "ticking_clock t = real t"

definition backwards_clock :: "nat \<Rightarrow> real" where
  "backwards_clock t = (if t = 0 then 5 else 3)"

definition unit_problem :: problem where
  "unit_problem = \<lparr>p_num_vars = 1, p_num_clauses = 1, p_clauses = [[1]],
                   p_satisfiability = Some ''S''\<rparr>"

definition mislabelled_problem :: problem where
  "mislabelled_problem = \<lparr>p_num_vars = 1, p_num_clauses = 1, p_clauses = [[1]],
                          p_satisfiability = Some ''U''\<rparr>"

definition overdeclared_problem :: problem where
  "overdeclared_problem = \<lparr>p_num_vars = 5, p_num_clauses = 1, p_clauses = [[1]],
                           p_satisfiability = None\<rparr>"

section \<open>The search engine\<close>

subsection \<open>Unfolding one call\<close>

lemma backtrack_leaf:
  "int index = num_vars self \<Longrightarrow> backtrack self index a = (is_satisfied self a, a)"
  by (subst backtrack.simps) simp

lemma backtrack_outside:
  "int index \<noteq> num_vars self \<Longrightarrow> length a \<le> index \<Longrightarrow>
   backtrack self index a = (Inl IndexError, a)"
  by (subst backtrack.simps) simp

lemma backtrack_step:
  "int index \<noteq> num_vars self \<Longrightarrow> index < length a \<Longrightarrow>
   backtrack self index a =
     (case backtrack self (index + 1) (a[index := Some True]) of
        (Inl e, a1) \<Rightarrow> (Inl e, a1)
      | (Inr True, a1) \<Rightarrow> (Inr True, a1)
      | (Inr False, a1) \<Rightarrow>
          (case backtrack self (index + 1) (a1[index := Some False]) of
             (Inl e, a2) \<Rightarrow> (Inl e, a2)
           | (Inr True, a2) \<Rightarrow> (Inr True, a2)
           | (Inr False, a2) \<Rightarrow> (Inr False, a2[index := None])))"
  by (subst backtrack.simps) simp

lemmas backtrack_step_Suc = backtrack_step[folded Suc_eq_plus1]

subsection \<open>The satisfaction check on a fully assigned buffer\<close>

lemma getitem_in_range: "0 \<le> i \<Longrightarrow> i < int (length xs) \<Longrightarrow> getitem xs i = Inr (xs ! nat i)"
  by (simp add: getitem_def)

lemma lit_true_total:
  assumes "\<bar>lit\<bar> \<le> int (length vs)"
  shows "lit_true (map Some vs) lit = Inr (spec_literal_true vs lit)"
proof -
  consider "lit > 0" | "lit < 0" | "lit = 0" by linarith
  then show ?thesis
  proof cases
    case 1
    with assms have "getitem (map Some vs) (lit - 1) = Inr (Some (vs ! (nat \<bar>lit\<bar> - 1)))"
      by (simp add: getitem_in_range nat_diff_distrib)
    with 1 show ?thesis by (simp add: lit_true_def spec_literal_true_def truthy_def)
  next
    case 2
    with assms have "getitem (map Some vs) (\<bar>lit\<bar> - 1) = Inr (Some (vs ! (nat \<bar>lit\<bar> - 1)))"
      by (simp add: getitem_in_range nat_diff_distrib)
    with 2 show ?thesis by (simp add: lit_true_def spec_literal_true_def truthy_def)
  next
    case 3
    then show ?thesis by (simp add: lit_true_def spec_literal_true_def)
  qed
qed

lemma any_lit_total:
  "list_all (\<lambda>lit. \<bar>lit\<bar> \<le> int (length vs)) clause \<Longrightarrow>
     any_lit (map Some vs) clause = Inr (list_ex (spec_literal_true vs) clause)"
  by (induction clause) (auto simp: lit_true_total split: bool.splits)

lemma all_clauses_total:
  "lits_within (length vs) cls \<Longrightarrow> all_clauses (map Some vs) cls = Inr (spec_satisfies vs cls)"
  by (induction cls) (auto simp: lits_within_def spec_satisfies_def any_lit_total split: bool.splits)

subsection \<open>The buffer along one branch\<close>

lemma buffer_update:
  "(map Some vs @ replicate (Suc k) None)[length vs := Some b] = map Some (vs @ [b]) @ replicate k None"
  using list_update_length[of "map Some vs" None "replicate k None" "Some b"] by simp

lemma buffer_reset:
  "(map Some (vs @ [b]) @ replicate k None)[length vs := None] = map Some vs @ replicate (Suc k) None"
  using list_update_length[of "map Some vs" "Some b" "replicate k None" None] by simp

lemma buffer_flip:
  "(map Some (vs @ [b]) @ replicate k None)[length vs := Some c] = map Some (vs @ [c]) @ replicate k None"
  using list_update_length[of "map Some vs" "Some b" "replicate k None" "Some c"] by simp

text \<open>
  The search from depth \<open>length vs\<close>, with the first \<open>length vs\<close> entries
  assigned as \<open>vs\<close> and the other \<open>k\<close> unassigned: it answers True with a
  satisfying completion in the buffer when one exists, and otherwise answers False and
  hands the buffer back as it received it.
\<close>

lemma backtrack_search:
  assumes nv: "num_vars self = int n" and lw: "lits_within n (clauses self)"
  shows "length vs + k = n \<Longrightarrow>
     (if \<exists>ws. length ws = k \<and> spec_satisfies (vs @ ws) (clauses self)
      then \<exists>ws. length ws = k \<and> spec_satisfies (vs @ ws) (clauses self) \<and>
             backtrack self (length vs) (map Some vs @ replicate k None) = (Inr True, map Some (vs @ ws))
      else backtrack self (length vs) (map Some vs @ replicate k None)
             = (Inr False, map Some vs @ replicate k None))"
proof (induction k arbitrary: vs)
  case 0
  then have len: "length vs = n" by simp
  have "backtrack self (length vs) (map Some vs) = (Inr (spec_satisfies vs (clauses self)), map Some vs)"
    using nv lw len by (simp add: backtrack_leaf is_satisfied_def all_clauses_total)
  then show ?case by simp
next
  case (Suc k)
  let ?i = "length vs"
  let ?buf = "map Some vs @ replicate (Suc k) None"
  let ?S = "\<lambda>us. \<exists>ws. length ws = k \<and> spec_satisfies (us @ ws) (clauses self)"
  from Suc.prems have ne: "int ?i \<noteq> num_vars self" and lt: "?i < length ?buf"
    using nv by simp_all
  have unfold: "backtrack self ?i ?buf =
        (case backtrack self (Suc ?i) (map Some (vs @ [True]) @ replicate k None) of
           (Inl e, a1) \<Rightarrow> (Inl e, a1)
         | (Inr True, a1) \<Rightarrow> (Inr True, a1)
         | (Inr False, a1) \<Rightarrow>
             (case backtrack self (Suc ?i) (a1[?i := Some False]) of
                (Inl e, a2) \<Rightarrow> (Inl e, a2)
              | (Inr True, a2) \<Rightarrow> (Inr True, a2)
              | (Inr False, a2) \<Rightarrow> (Inr False, a2[?i := None])))"
    using backtrack_step_Suc[OF ne lt] by (simp only: buffer_update)
  have split: "(\<exists>ws. length ws = Suc k \<and> spec_satisfies (vs @ ws) (clauses self)) \<longleftrightarrow> ?S (vs @ [True]) \<or> ?S (vs @ [False])"
  proof
    assume "\<exists>ws. length ws = Suc k \<and> spec_satisfies (vs @ ws) (clauses self)"
    then obtain ws where ws: "length ws = Suc k" "spec_satisfies (vs @ ws) (clauses self)" by blast
    then obtain b ws' where "ws = b # ws'" by (cases ws) auto
    with ws have "length ws' = k" "spec_satisfies ((vs @ [b]) @ ws') (clauses self)" by simp_all
    then have "?S (vs @ [b])" by blast
    then show "?S (vs @ [True]) \<or> ?S (vs @ [False])" by (cases b) auto
  next
    assume "?S (vs @ [True]) \<or> ?S (vs @ [False])"
    then obtain b ws where "length ws = k" "spec_satisfies ((vs @ [b]) @ ws) (clauses self)" by blast
    then have "length (b # ws) = Suc k \<and> spec_satisfies (vs @ (b # ws)) (clauses self)" by simp
    then show "\<exists>ws. length ws = Suc k \<and> spec_satisfies (vs @ ws) (clauses self)" by blast
  qed
  have pb: "length (vs @ [b]) + k = n" for b using Suc.prems by simp
  note ihT = Suc.IH[OF pb[of True], unfolded length_append_singleton]
  note ihF = Suc.IH[OF pb[of False], unfolded length_append_singleton]
  show ?case
  proof (cases "?S (vs @ [True])")
    case True
    with ihT obtain ws where ws: "length ws = k" "spec_satisfies ((vs @ [True]) @ ws) (clauses self)"
      "backtrack self (Suc ?i) (map Some (vs @ [True]) @ replicate k None) = (Inr True, map Some ((vs @ [True]) @ ws))"
      by auto
    have "length (True # ws) = Suc k \<and> spec_satisfies (vs @ (True # ws)) (clauses self) \<and>
       backtrack self ?i ?buf = (Inr True, map Some (vs @ (True # ws)))"
      using ws unfold by simp
    then have "\<exists>ws. length ws = Suc k \<and> spec_satisfies (vs @ ws) (clauses self) \<and>
       backtrack self ?i ?buf = (Inr True, map Some (vs @ ws))" by blast
    with True split show ?thesis by simp
  next
    case noT: False
    have r1: "backtrack self (Suc ?i) (map Some (vs @ [True]) @ replicate k None)
             = (Inr False, map Some (vs @ [True]) @ replicate k None)"
      using noT ihT by (simp only: if_False)
    show ?thesis
    proof (cases "?S (vs @ [False])")
      case True
      with ihF obtain ws where ws: "length ws = k" "spec_satisfies ((vs @ [False]) @ ws) (clauses self)"
        "backtrack self (Suc ?i) (map Some (vs @ [False]) @ replicate k None) = (Inr True, map Some ((vs @ [False]) @ ws))"
        by auto
      have "backtrack self ?i ?buf = (Inr True, map Some ((vs @ [False]) @ ws))"
        unfolding unfold r1 by (simp only: prod.case sum.case bool.case buffer_flip ws(3))
      then have "length (False # ws) = Suc k \<and> spec_satisfies (vs @ (False # ws)) (clauses self) \<and>
         backtrack self ?i ?buf = (Inr True, map Some (vs @ (False # ws)))"
        using ws by simp
      then have "\<exists>ws. length ws = Suc k \<and> spec_satisfies (vs @ ws) (clauses self) \<and>
         backtrack self ?i ?buf = (Inr True, map Some (vs @ ws))" by blast
      with True split show ?thesis by simp
    next
      case noF: False
      have r2: "backtrack self (Suc ?i) (map Some (vs @ [False]) @ replicate k None)
             = (Inr False, map Some (vs @ [False]) @ replicate k None)"
        using noF ihF by (simp only: if_False)
      have "backtrack self ?i ?buf = (Inr False, ?buf)"
        unfolding unfold r1 by (simp only: prod.case sum.case bool.case buffer_flip r2 buffer_reset)
      with noT noF split show ?thesis by simp
    qed
  qed
qed

subsection \<open>The derived variable count\<close>

lemma get_num_vars_Inl: "concat cls = [] \<Longrightarrow> get_num_vars cls = Inl ValueError"
proof -
  assume "concat cls = []"
  then have "map abs (concat cls) = []" by (simp only: list.map)
  then have "concat (map (map abs) cls) = []" by (simp only: map_concat)
  then show ?thesis by (simp only: get_num_vars_def list.case)
qed

lemma get_num_vars_Inr:
  assumes "concat cls \<noteq> []"
  shows "get_num_vars cls = Inr (Max (abs ` set (concat cls)))"
proof -
  have "map abs (concat cls) \<noteq> []" using assms by (simp only: map_is_Nil_conv not_False_eq_True)
  then obtain m ms where c: "map abs (concat cls) = m # ms"
    by (cases "map abs (concat cls)") auto
  then have "set (map abs (concat cls)) = set (m # ms)" by (simp only:)
  then have "abs ` set (concat cls) = set (m # ms)" by (simp only: set_map)
  then have "Max (abs ` set (concat cls)) = fold max ms m"
    by (simp only: Max.set_eq_fold)
  moreover have "concat (map (map abs) cls) = m # ms" using c by (simp only: map_concat)
  ultimately show ?thesis by (simp only: get_num_vars_def list.case)
qed

lemma Max_abs_bounds:
  assumes "concat cls \<noteq> []"
  shows "0 \<le> Max (abs ` set (concat cls))"
    and "lits_within (nat (Max (abs ` set (concat cls)))) cls"
proof -
  let ?A = "abs ` set (concat cls)"
  have fin: "finite ?A" by simp
  from assms obtain l where l: "l \<in> set (concat cls)" by (cases "concat cls") auto
  then have "\<bar>l\<bar> \<le> Max ?A" by (intro Max_ge fin) simp
  then show nn: "0 \<le> Max ?A" by linarith
  have "\<bar>lit\<bar> \<le> Max ?A" if "clause \<in> set cls" "lit \<in> set clause" for clause lit
    using that by (intro Max_ge fin) auto
  with nn show "lits_within (nat (Max ?A)) cls"
    by (auto simp: lits_within_def list_all_iff)
qed

lemma init_Inr:
  assumes "concat cls \<noteq> []"
  shows "IncrementalkSAT_init cls = Inr \<lparr>clauses = cls, num_vars = Max (abs ` set (concat cls))\<rparr>"
  by (simp add: IncrementalkSAT_init_def get_num_vars_Inr[OF assms])

lemma incremental_search_result:
  assumes nv: "num_vars self = int n" and lw: "lits_within n (clauses self)"
  shows "incremental_search self = Inr (\<exists>vs. length vs = n \<and> spec_satisfies vs (clauses self))"
proof -
  have n: "nat (num_vars self) = n" using nv by simp
  from backtrack_search[OF nv lw, of "[]" n]
  have "fst (backtrack self 0 (replicate n None)) = Inr (\<exists>vs. length vs = n \<and> spec_satisfies vs (clauses self))"
    by (auto split: if_splits)
  then show ?thesis
    by (simp add: incremental_search_def n split: bool.splits)
qed

lemma solve_Inr:
  assumes "concat cls \<noteq> []"
  shows "solve cls =
     Inr (\<exists>vs. length vs = nat (Max (abs ` set (concat cls))) \<and> spec_satisfies vs cls)"
proof -
  let ?self = "\<lparr>clauses = cls, num_vars = Max (abs ` set (concat cls))\<rparr>"
  let ?n = "nat (Max (abs ` set (concat cls)))"
  have nv: "num_vars ?self = int ?n" using Max_abs_bounds(1)[OF assms] by simp
  have lw: "lits_within ?n (clauses ?self)" using Max_abs_bounds(2)[OF assms] by simp
  from incremental_search_result[OF nv lw] init_Inr[OF assms]
  show ?thesis by (simp add: solve_def)
qed

lemma solve_Inl: "concat cls = [] \<Longrightarrow> solve cls = Inl ValueError"
  by (simp only: solve_def IncrementalkSAT_init_def get_num_vars_Inl sum.case)

subsection \<open>The prefix invariant\<close>

lemma prefix_assigned_iff:
  "prefix_assigned index a \<longleftrightarrow> (\<forall>j<length a. (a ! j \<noteq> None) = (j < index))"
  by (auto simp: prefix_assigned_def list_all_iff)

lemma backtrack_False_restores:
  "backtrack self index a = (Inr False, a') \<Longrightarrow>
   (\<forall>j<length a. index \<le> j \<longrightarrow> a ! j = None) \<Longrightarrow> a' = a"
proof (induction self index a arbitrary: a' rule: backtrack.induct)
  case (1 self index a)
  show ?case
  proof (cases "int index = num_vars self")
    case True
    with "1.prems"(1) show ?thesis by (simp add: backtrack_leaf)
  next
    case ne: False
    show ?thesis
    proof (cases "length a \<le> index")
      case True
      with ne "1.prems"(1) show ?thesis by (simp add: backtrack_outside)
    next
      case nle: False
      then have lt: "index < length a" by simp
      obtain r1 a1 where c1: "backtrack self (index + 1) (a[index := Some True]) = (r1, a1)"
        by (cases "backtrack self (index + 1) (a[index := Some True])")
      obtain r2 a2 where c2: "backtrack self (index + 1) (a1[index := Some False]) = (r2, a2)"
        by (cases "backtrack self (index + 1) (a1[index := Some False])")
      from "1.prems"(1) have res: "r1 = Inr False \<and> r2 = Inr False \<and> a' = a2[index := None]"
        unfolding backtrack_step[OF ne lt] c1 by (auto simp: c2[simplified] split: sum.splits bool.splits)
      have p1: "\<forall>j<length (a[index := Some True]). index + 1 \<le> j \<longrightarrow> a[index := Some True] ! j = None"
        using "1.prems"(2) by simp
      from "1.IH"(1)[OF ne nle _ p1, of a1] c1 res have a1: "a1 = a[index := Some True]" by simp
      have p2: "\<forall>j<length (a1[index := Some False]). index + 1 \<le> j \<longrightarrow> a1[index := Some False] ! j = None"
        using "1.prems"(2) a1 by simp
      from "1.IH"(2)[OF ne nle c1[symmetric] _ refl _ p2, of a2] c2 res
      have a2: "a2 = a1[index := Some False]" by simp
      from "1.prems"(2) lt have "a ! index = None" by simp
      then have "a[index := None] = a" by (metis list_update_id)
      with res a1 a2 show ?thesis by simp
    qed
  qed
qed

lemma invoked_invariant:
  "invoked self index a \<Longrightarrow>
     length a = nat (num_vars self) \<and> index \<le> length a \<and> prefix_assigned index a"
proof (induction rule: invoked.induct)
  case top_call
  show ?case by (simp add: prefix_assigned_iff)
next
  case (try_True index a)
  then show ?case by (auto simp: prefix_assigned_iff nth_list_update)
next
  case (try_False index a a1)
  have "\<forall>j<length (a[index := Some True]). index + 1 \<le> j \<longrightarrow> a[index := Some True] ! j = None"
    using try_False.IH by (auto simp: prefix_assigned_iff)
  from backtrack_False_restores[OF try_False.hyps(4) this] have "a1 = a[index := Some True]" .
  with try_False show ?case by (auto simp: prefix_assigned_iff nth_list_update)
qed

lemma invoked_False_restores:
  assumes "invoked self index a" "backtrack self index a = (Inr False, a')"
  shows "a' = a"
proof -
  from invoked_invariant[OF assms(1)] have "\<forall>j<length a. index \<le> j \<longrightarrow> a ! j = None"
    by (auto simp: prefix_assigned_iff)
  from backtrack_False_restores[OF assms(2) this] show ?thesis .
qed

lemma full_buffer:
  assumes "prefix_assigned (length a) a"
  shows "a = map Some (map the a)"
proof (rule nth_equalityI)
  show "length a = length (map Some (map the a))" by simp
next
  fix j assume "j < length a"
  with assms have "a ! j \<noteq> None" by (simp add: prefix_assigned_iff)
  with \<open>j < length a\<close> show "a ! j = map Some (map the a) ! j" by auto
qed

lemma invoked_depth:
  assumes "invoked self index a" and "0 \<le> num_vars self"
  shows "int index \<le> num_vars self \<and>
      (int index \<noteq> num_vars self \<longrightarrow>
         index < length a \<and> length a - (index + 1) < length a - index)"
proof -
  from invoked_invariant[OF assms(1)]
  have "length a = nat (num_vars self)" "index \<le> length a" by simp_all
  with assms(2) show ?thesis by linarith
qed

subsection \<open>A concrete run: the clauses [1], [-1]\<close>

lemma contradiction_leaf:
  "backtrack contradiction_engine 1 [Some b] = (Inr False, [Some b])"
  by (cases b)
     (simp_all add: backtrack_leaf contradiction_engine_def is_satisfied_def lit_true_def
        getitem_def truthy_def)

lemma contradiction_invoked: "invoked contradiction_engine 1 [Some False]"
proof -
  have t: "invoked contradiction_engine 0 [None]"
    using top_call[of contradiction_engine] by (simp add: contradiction_engine_def)
  have ne: "int 0 \<noteq> num_vars contradiction_engine" by (simp add: contradiction_engine_def)
  have lt: "0 < length [None :: bool option]" by simp
  have r: "backtrack contradiction_engine (0 + 1) ([None][0 := Some True]) = (Inr False, [Some True])"
    using contradiction_leaf[of True] by simp
  from try_False[OF t ne lt r] show ?thesis by simp
qed

lemma contradiction_init: "IncrementalkSAT_init [[1], [- 1]] = Inr contradiction_engine"
  by (simp add: IncrementalkSAT_init_def get_num_vars_def contradiction_engine_def)

section \<open>The batch runner\<close>

subsection \<open>One pass of the loop\<close>

lemma time_solver_Inr:
  "solve cls = Inr b \<Longrightarrow> time_solver clock cls t = (Inr (clock (t + 1) - clock t, b), t + 2)"
  by (auto simp: time_solver_def solve_def split: sum.splits)

lemma time_solver_Inl:
  "solve cls = Inl e \<Longrightarrow> \<exists>t'. time_solver clock cls t = (Inl e, t')"
  by (auto simp: time_solver_def solve_def split: sum.splits)

lemma run_loop_continue:
  assumes "solve (p_clauses p) = Inr b" and "\<not> mismatch b (p_satisfiability p)"
  shows "run_loop clock (p # ps) st = run_loop clock ps (processed clock p b st)"
  using assms by (simp add: time_solver_Inr processed_def)

lemma run_loop_abort:
  assumes "solve (p_clauses p) = Inr b" and "mismatch b (p_satisfiability p)"
  shows "run_loop clock (p # ps) st =
     (Inl (SystemExit exit_message),
      (processed clock p b st)\<lparr>stdout := stdout (processed clock p b st) @
          [Mismatch b (p_satisfiability p)]\<rparr>)"
  using assms by (simp add: time_solver_Inr processed_def Let_def)

lemma run_loop_raise:
  assumes "solve (p_clauses p) = Inl e"
  shows "\<exists>t. run_loop clock (p # ps) st = (Inl e, st\<lparr>clock_reads := t\<rparr>)"
  using time_solver_Inl[OF assms, of clock "clock_reads st"] by auto

lemma consistent_answer:
  "consistent p \<Longrightarrow> solve (p_clauses p) = Inr (answer p) \<and> \<not> mismatch (answer p) (p_satisfiability p)"
  by (auto simp: consistent_def answer_def)

lemma solve_error: "solve cls = Inl e \<Longrightarrow> e = ValueError"
  using solve_Inr[of cls] solve_Inl[of cls] by (cases "concat cls = []") simp_all

lemma answer_eq: "solve (p_clauses p) = Inr b \<Longrightarrow> answer p = b"
  by (simp add: answer_def)

lemma solve_unit: "solve [[1]] = Inr True"
proof -
  have "\<exists>vs. length vs = nat (Max (abs ` set (concat [[1 :: int]]))) \<and> spec_satisfies vs [[1]]"
    by (rule exI[of _ "[True]"]) (simp add: spec_satisfies_def spec_literal_true_def)
  with solve_Inr[of "[[1]]"] show ?thesis by simp
qed

lemma unit_problem_consistent:
  "solve (p_clauses unit_problem) = Inr True \<and> \<not> mismatch True (p_satisfiability unit_problem)"
  by (simp add: unit_problem_def solve_unit mismatch_def)

lemma mislabelled_problem_mismatch:
  "solve (p_clauses mislabelled_problem) = Inr True \<and>
   mismatch True (p_satisfiability mislabelled_problem)"
  by (simp add: mislabelled_problem_def solve_unit mismatch_def)

subsection \<open>A run of problems that all pass the mismatch check\<close>

lemma run_loop_consistent:
  "\<forall>p\<in>set ps. consistent p \<Longrightarrow>
   run_loop clock (ps @ qs) st = run_loop clock qs (all_processed clock ps st)"
proof (induction ps arbitrary: st)
  case Nil
  show ?case by (simp add: all_processed_def)
next
  case (Cons p ps)
  from Cons.prems have c: "consistent p" by simp
  from consistent_answer[OF c] have
    "run_loop clock (p # (ps @ qs)) st = run_loop clock (ps @ qs) (processed clock p (answer p) st)"
    by (intro run_loop_continue) simp_all
  with Cons.IH[of "processed clock p (answer p) st"] Cons.prems
  show ?case by (simp add: all_processed_def)
qed

lemma all_processed_snoc:
  "all_processed clock (ps @ [p]) st = processed clock p (answer p) (all_processed clock ps st)"
  by (simp add: all_processed_def)

lemma all_processed_fields:
  "clock_reads (all_processed clock ps st) = clock_reads st + 2 * length ps \<and>
   sizes (all_processed clock ps st) = sizes st @ map p_num_vars ps \<and>
   answers (all_processed clock ps st) = answers st @ map answer ps \<and>
   times_list (all_processed clock ps st) = times_list st @
     map (\<lambda>j. clock (clock_reads st + 2 * j + 1) - clock (clock_reads st + 2 * j)) [0..<length ps] \<and>
   csv_rows (all_processed clock ps st) = csv_rows st @
     map (\<lambda>j. Row (p_num_vars (ps ! j)) (p_num_clauses (ps ! j))
                 (clock (clock_reads st + 2 * j + 1) - clock (clock_reads st + 2 * j))
                 (answer (ps ! j)) (p_satisfiability (ps ! j))) [0..<length ps]"
proof (induction ps rule: rev_induct)
  case Nil
  show ?case by (simp add: all_processed_def)
next
  case (snoc p ps)
  then show ?case
    by (simp add: all_processed_snoc processed_def record_result_def nth_append add.commute)
qed

subsection \<open>What any run has written\<close>

lemma run_loop_rows_grow:
  "run_loop clock qs st = (out, st') \<Longrightarrow>
     length (csv_rows st) \<le> length (csv_rows st') \<and>
     (out = Inl (SystemExit m) \<longrightarrow> length (csv_rows st) < length (csv_rows st'))"
proof (induction qs arbitrary: st)
  case Nil
  then show ?case by auto
next
  case (Cons q qs)
  show ?case
  proof (cases "solve (p_clauses q)")
    case (Inl e)
    from run_loop_raise[OF Inl, of clock qs st] solve_error[OF Inl] Cons.prems
    show ?thesis by auto
  next
    case (Inr b)
    show ?thesis
    proof (cases "mismatch b (p_satisfiability q)")
      case True
      from run_loop_abort[OF Inr True, of clock qs st] Cons.prems
      show ?thesis by (auto simp: processed_def record_result_def)
    next
      case False
      from run_loop_continue[OF Inr False, of clock qs st] Cons.prems
      have "run_loop clock qs (processed clock q b st) = (out, st')" by simp
      from Cons.IH[OF this] show ?thesis by (auto simp: processed_def record_result_def)
    qed
  qed
qed

lemma run_loop_trace:
  "run_loop clock ps st = (out, st') \<Longrightarrow>
   \<exists>k ts bs. k \<le> length ps \<and> length ts = k \<and> length bs = k \<and>
     csv_rows st' = csv_rows st @ result_rows (take k ps) ts bs \<and>
     sizes st' = sizes st @ map p_num_vars (take k ps) \<and>
     (out = Inr () \<longrightarrow> k = length ps)"
proof (induction ps arbitrary: st)
  case Nil
  then show ?case by (auto simp: result_rows_def)
next
  case (Cons p ps)
  show ?case
  proof (cases "solve (p_clauses p)")
    case (Inl e)
    from run_loop_raise[OF Inl, of clock ps st] Cons.prems
    have "csv_rows st' = csv_rows st" "sizes st' = sizes st" "out = Inl e" by auto
    then have "0 \<le> length (p # ps) \<and> length ([] :: real list) = 0 \<and> length ([] :: bool list) = 0 \<and>
        csv_rows st' = csv_rows st @ result_rows (take 0 (p # ps)) [] [] \<and>
        sizes st' = sizes st @ map p_num_vars (take 0 (p # ps)) \<and>
        (out = Inr () \<longrightarrow> 0 = length (p # ps))"
      by (simp add: result_rows_def)
    then show ?thesis by blast
  next
    case (Inr b)
    let ?e = "clock (clock_reads st + 1) - clock (clock_reads st)"
    let ?st1 = "processed clock p b st"
    have rows1: "csv_rows ?st1 = csv_rows st @ result_rows [p] [?e] [b]"
      and sizes1: "sizes ?st1 = sizes st @ [p_num_vars p]"
      by (simp_all add: processed_def record_result_def result_rows_def)
    show ?thesis
    proof (cases "mismatch b (p_satisfiability p)")
      case True
      from run_loop_abort[OF Inr True, of clock ps st] Cons.prems
      have "csv_rows st' = csv_rows ?st1" "sizes st' = sizes ?st1" "out = Inl (SystemExit exit_message)"
        by auto
      with rows1 sizes1
      have "1 \<le> length (p # ps) \<and> length [?e] = 1 \<and> length [b] = 1 \<and>
        csv_rows st' = csv_rows st @ result_rows (take 1 (p # ps)) [?e] [b] \<and>
        sizes st' = sizes st @ map p_num_vars (take 1 (p # ps)) \<and>
        (out = Inr () \<longrightarrow> 1 = length (p # ps))"
        by simp
      then show ?thesis by blast
    next
      case False
      from run_loop_continue[OF Inr False, of clock ps st] Cons.prems
      have "run_loop clock ps ?st1 = (out, st')" by simp
      from Cons.IH[OF this] obtain k ts bs where
        k: "k \<le> length ps" "length ts = k" "length bs = k"
        and r: "csv_rows st' = csv_rows ?st1 @ result_rows (take k ps) ts bs"
        and z: "sizes st' = sizes ?st1 @ map p_num_vars (take k ps)"
        and o: "out = Inr () \<longrightarrow> k = length ps"
        by blast
      have "Suc k \<le> length (p # ps) \<and> length (?e # ts) = Suc k \<and> length (b # bs) = Suc k \<and>
        csv_rows st' = csv_rows st @ result_rows (take (Suc k) (p # ps)) (?e # ts) (b # bs) \<and>
        sizes st' = sizes st @ map p_num_vars (take (Suc k) (p # ps)) \<and>
        (out = Inr () \<longrightarrow> Suc k = length (p # ps))"
        using k r z o rows1 sizes1 by (simp add: result_rows_def)
      then show ?thesis by blast
    qed
  qed
qed

section \<open>Claims about the search engine\<close>

text \<open>
  C3. For every clause set with at least one literal, constructing the engine succeeds
  with \<open>num_vars\<close> the largest literal magnitude \<open>N\<close>, and the search returns true if
  and only if some total assignment of True/False to the variables \<open>1..N\<close> gives every
  clause at least one true literal.
\<close>

theorem search_true_iff_satisfiable:
  assumes "concat cls \<noteq> []"
  shows "\<exists>self. IncrementalkSAT_init cls = Inr self \<and>
           num_vars self = Max (abs ` set (concat cls)) \<and>
           incremental_search self =
             Inr (\<exists>vs. length vs = nat (num_vars self) \<and> spec_satisfies vs cls)"
proof -
  let ?self = "\<lparr>clauses = cls, num_vars = Max (abs ` set (concat cls))\<rparr>"
  let ?n = "nat (Max (abs ` set (concat cls)))"
  have nv: "num_vars ?self = int ?n" using Max_abs_bounds(1)[OF assms] by simp
  have lw: "lits_within ?n (clauses ?self)" using Max_abs_bounds(2)[OF assms] by simp
  from incremental_search_result[OF nv lw] init_Inr[OF assms]
  show ?thesis by simp
qed

theorem search_true_iff_satisfiable_witness:
  "concat [[1, 2], [- 1, - 2 :: int]] \<noteq> [] \<and>
   (\<exists>self. IncrementalkSAT_init [[1, 2], [- 1, - 2]] = Inr self \<and>
      num_vars self = 2 \<and> incremental_search self = Inr True)"
proof -
  have ne: "concat [[1, 2], [- 1, - 2 :: int]] \<noteq> []" by simp
  have sat: "\<exists>vs. length vs = 2 \<and> spec_satisfies vs [[1, 2], [- 1, - 2]]"
    by (rule exI[of _ "[True, False]"]) (simp add: spec_satisfies_def spec_literal_true_def)
  from search_true_iff_satisfiable[OF ne] obtain self where
    s: "IncrementalkSAT_init [[1, 2], [- 1, - 2]] = Inr self"
       "num_vars self = Max (abs ` set (concat [[1, 2], [- 1, - 2]]))"
       "incremental_search self =
          Inr (\<exists>vs. length vs = nat (num_vars self) \<and> spec_satisfies vs [[1, 2], [- 1, - 2]])"
    by blast
  from s(2) have n: "num_vars self = 2" by simp
  with s(3) sat have "incremental_search self = Inr True" by simp
  with s(1) n ne show ?thesis by blast
qed

text \<open>
  C8. Whenever \<open>backtrack\<close> is invoked at a depth during the search, the buffer has the
  length \<open>num_vars\<close> and exactly the entries at the indices below the depth are
  assigned, all others being unassigned. A call that returns False hands the buffer back
  as it received it; in particular its own entry is unassigned again.
\<close>

theorem backtrack_prefix_invariant:
  assumes "invoked self index a"
  shows "length a = nat (num_vars self) \<and> index \<le> length a \<and>
         (\<forall>j<length a. (a ! j \<noteq> None) = (j < index)) \<and>
         (\<forall>a'. backtrack self index a = (Inr False, a') \<longrightarrow>
               a' = a \<and> (index < length a \<longrightarrow> a' ! index = None))"
proof -
  from invoked_invariant[OF assms]
  have len: "length a = nat (num_vars self)" and le: "index \<le> length a"
    and pa: "\<forall>j<length a. (a ! j \<noteq> None) = (j < index)"
    by (simp_all add: prefix_assigned_iff)
  have "a' = a \<and> (index < length a \<longrightarrow> a' ! index = None)"
    if "backtrack self index a = (Inr False, a')" for a'
  proof -
    from invoked_False_restores[OF assms that] have "a' = a" .
    with pa show ?thesis by auto
  qed
  with len le pa show ?thesis by blast
qed

theorem backtrack_prefix_invariant_witness:
  "invoked contradiction_engine 1 [Some False] \<and>
   length [Some False :: bool option] = nat (num_vars contradiction_engine) \<and>
   [Some False] ! 0 \<noteq> None \<and>
   backtrack contradiction_engine 1 [Some False] = (Inr False, [Some False])"
  using backtrack_prefix_invariant[OF contradiction_invoked] contradiction_invoked
    contradiction_leaf[of False]
  by simp

text \<open>
  C9. For an engine built from a clause set with at least one literal, at every leaf of
  the search (a call at depth \<open>num_vars\<close>) each literal other than 0 of each clause
  reads the buffer at the index \<open>|lit| - 1\<close>, which is inside the buffer and holds an
  assigned entry, and the satisfaction check returns a boolean: it does not raise
  IndexError.
\<close>

theorem leaf_reads_in_bounds:
  assumes init: "IncrementalkSAT_init cls = Inr self"
    and inv: "invoked self index a"
    and leaf: "int index = num_vars self"
  shows "(\<forall>clause\<in>set cls. \<forall>lit\<in>set clause. lit \<noteq> 0 \<longrightarrow>
            0 \<le> \<bar>lit\<bar> - 1 \<and> \<bar>lit\<bar> - 1 < int (length a) \<and>
            (\<exists>v. getitem a (\<bar>lit\<bar> - 1) = Inr (Some v))) \<and>
         (\<exists>b. is_satisfied self a = Inr b)"
proof -
  have ne: "concat cls \<noteq> []"
  proof
    assume "concat cls = []"
    from get_num_vars_Inl[OF this] init show False by (simp add: IncrementalkSAT_init_def)
  qed
  from init init_Inr[OF ne] have self: "self = \<lparr>clauses = cls, num_vars = Max (abs ` set (concat cls))\<rparr>"
    by simp
  from invoked_invariant[OF inv] leaf[symmetric]
  have len: "length a = index" and pa: "prefix_assigned (length a) a" by auto
  from self leaf have "Max (abs ` set (concat cls)) = int index" by simp
  with Max_abs_bounds(2)[OF ne] len have lw: "lits_within (length a) cls"
    by (simp only: nat_int)
  have full: "a = map Some (map the a)" by (rule full_buffer[OF pa])
  have reads: "0 \<le> \<bar>lit\<bar> - 1 \<and> \<bar>lit\<bar> - 1 < int (length a) \<and> (\<exists>v. getitem a (\<bar>lit\<bar> - 1) = Inr (Some v))"
    if "clause \<in> set cls" "lit \<in> set clause" "lit \<noteq> 0" for clause lit
  proof -
    from lw that have b: "\<bar>lit\<bar> \<le> int (length a)" by (auto simp: lits_within_def list_all_iff)
    from that(3) have lo: "0 \<le> \<bar>lit\<bar> - 1" by linarith
    from b have hi: "\<bar>lit\<bar> - 1 < int (length a)" by linarith
    then have "nat (\<bar>lit\<bar> - 1) < length a" using lo by linarith
    with pa have "a ! nat (\<bar>lit\<bar> - 1) \<noteq> None" by (simp add: prefix_assigned_iff)
    then obtain v where "a ! nat (\<bar>lit\<bar> - 1) = Some v" by auto
    with getitem_in_range[OF lo hi] lo hi show ?thesis by simp
  qed
  have "is_satisfied self a = Inr (spec_satisfies (map the a) cls)"
    using all_clauses_total[of "map the a" cls] lw full self by (simp add: is_satisfied_def)
  with reads show ?thesis by blast
qed

theorem leaf_reads_in_bounds_witness:
  "IncrementalkSAT_init [[1], [- 1]] = Inr contradiction_engine \<and>
   invoked contradiction_engine 1 [Some False] \<and>
   int 1 = num_vars contradiction_engine \<and>
   getitem [Some False] (\<bar>- 1\<bar> - 1) = Inr (Some False) \<and>
   (\<exists>b. is_satisfied contradiction_engine [Some False] = Inr b)"
proof -
  have leaf: "int 1 = num_vars contradiction_engine" by (simp add: contradiction_engine_def)
  from leaf_reads_in_bounds[OF contradiction_init contradiction_invoked leaf]
  have "\<exists>b. is_satisfied contradiction_engine [Some False] = Inr b" by blast
  moreover have "getitem [Some False] (\<bar>- 1\<bar> - 1) = Inr (Some False)" by (simp add: getitem_def)
  ultimately show ?thesis using contradiction_init contradiction_invoked leaf by blast
qed

text \<open>
  C10. For every clause set with at least one literal the search terminates: the
  constructor succeeds and the search returns a boolean. Every call of \<open>backtrack\<close> is
  in the accessible part of its recursion; the depth of a call made during the search
  never exceeds \<open>num_vars\<close>, and below \<open>num_vars\<close> each recursive call, at depth
  plus one, is strictly nearer to the end of the buffer.
\<close>

theorem search_terminates:
  assumes "concat cls \<noteq> []"
  shows "\<exists>self. IncrementalkSAT_init cls = Inr self \<and>
           (\<exists>b. incremental_search self = Inr b) \<and>
           (\<forall>index a. backtrack_dom (self, index, a)) \<and>
           (\<forall>index a. invoked self index a \<longrightarrow>
              int index \<le> num_vars self \<and>
              (int index \<noteq> num_vars self \<longrightarrow>
                 index < length a \<and> length a - (index + 1) < length a - index))"
proof -
  let ?self = "\<lparr>clauses = cls, num_vars = Max (abs ` set (concat cls))\<rparr>"
  let ?n = "nat (Max (abs ` set (concat cls)))"
  have nv: "num_vars ?self = int ?n" using Max_abs_bounds(1)[OF assms] by simp
  have lw: "lits_within ?n (clauses ?self)" using Max_abs_bounds(2)[OF assms] by simp
  have ret: "\<exists>b. incremental_search ?self = Inr b"
    using incremental_search_result[OF nv lw] by blast
  have dom: "\<forall>index a. backtrack_dom (?self, index, a)"
    using backtrack_dom_all by blast
  have depth: "int index \<le> num_vars ?self \<and>
      (int index \<noteq> num_vars ?self \<longrightarrow> index < length a \<and> length a - (index + 1) < length a - index)"
    if "invoked ?self index a" for index a
    by (rule invoked_depth[OF that]) (simp only: nv of_nat_0_le_iff)
  from init_Inr[OF assms] ret dom depth show ?thesis by blast
qed

theorem search_terminates_witness:
  "concat [[1], [- 1 :: int]] \<noteq> [] \<and>
   IncrementalkSAT_init [[1], [- 1]] = Inr contradiction_engine \<and>
   (\<exists>b. incremental_search contradiction_engine = Inr b) \<and>
   invoked contradiction_engine 1 [Some False] \<and>
   int 1 \<le> num_vars contradiction_engine"
proof -
  have ne: "concat [[1], [- 1 :: int]] \<noteq> []" by simp
  from search_terminates[OF ne] contradiction_init
  have "\<exists>b. incremental_search contradiction_engine = Inr b" by auto
  moreover have "int 1 \<le> num_vars contradiction_engine" by (simp add: contradiction_engine_def)
  ultimately show ?thesis using ne contradiction_init contradiction_invoked by blast
qed

text \<open>
  C2. The claim: on a clause set with zero clauses, constructing the engine and searching
  succeeds and returns true. In the code the constructor's \<open>max\<close> over no literals
  raises ValueError, so no search is run.
\<close>

theorem search_no_clauses_raises:
  "IncrementalkSAT_init [] = Inl ValueError \<and> solve [] = Inl ValueError"
  by (simp add: solve_def IncrementalkSAT_init_def get_num_vars_def)

text \<open>
  C6. The claim: on every clause set containing an empty clause the search returns
  false. When the empty clause is all there is (no literal anywhere), the constructor
  raises ValueError as above and nothing is returned.
\<close>

theorem search_lone_empty_clause_raises:
  "IncrementalkSAT_init [[]] = Inl ValueError \<and> solve [[]] = Inl ValueError"
  by (simp add: solve_def IncrementalkSAT_init_def get_num_vars_def)

section \<open>Claims about the batch runner\<close>

text \<open>
  In the theorems below a hypothesis \<open>solve (p_clauses p) = Inr b\<close> says that the solver
  gives the boolean \<open>b\<close> on the problem: the claims speak of the solver's result, and a
  problem without any literal has none (the constructor raises, see C2).
\<close>

text \<open>
  C1, as claimed: the variable count in a Result Record and in \<open>sizes\<close> is the
  engine-derived count. It is not: for a problem that declares 5 variables and has the
  one clause \<open>[1]\<close>, the engine derives 1 and the runner records 5.
\<close>

theorem runner_records_declared_count_counterexample:
  "get_num_vars (p_clauses overdeclared_problem) = Inr 1 \<and>
   run_ksat_cases ticking_clock [overdeclared_problem] =
     (Inr ([5], [1], [True]),
      \<lparr>clock_reads = 2, sizes = [5], times_list = [1], answers = [True],
       csv_rows = [Header csv_header, Row 5 1 1 True None],
       stdout = [Status 5 1 1 True None]\<rparr>)"
  by (simp add: run_ksat_cases_def initial_state_def overdeclared_problem_def
      time_solver_Inr[OF solve_unit] mismatch_def record_result_def ticking_clock_def
      get_num_vars_def)

text \<open>
  C1, amended: whatever the outcome of a run, the Result Records written are those of
  the first \<open>k\<close> problems in input order for some \<open>k\<close>, the variable count in each
  record and in \<open>sizes\<close> is the declared count \<open>num_vars\<close> of its problem, and when
  the run returns, the returned sizes are the declared counts of all problems.
\<close>

theorem runner_records_declared_count:
  assumes "run_ksat_cases clock problems = (out, st)"
  shows "\<exists>k ts bs. k \<le> length problems \<and> length ts = k \<and> length bs = k \<and>
           csv_rows st = Header csv_header #
             map (\<lambda>(p, t, b). Row (p_num_vars p) (p_num_clauses p) t b (p_satisfiability p))
               (zip (take k problems) (zip ts bs)) \<and>
           sizes st = map p_num_vars (take k problems) \<and>
           (\<forall>szs tms ans. out = Inr (szs, tms, ans) \<longrightarrow>
              k = length problems \<and> szs = map p_num_vars problems)"
proof -
  obtain o' st' where run: "run_loop clock problems initial_state = (o', st')"
    by (cases "run_loop clock problems initial_state")
  from run_loop_trace[OF run] obtain k ts bs where
    k: "k \<le> length problems" "length ts = k" "length bs = k"
    and r: "csv_rows st' = csv_rows initial_state @ result_rows (take k problems) ts bs"
    and z: "sizes st' = sizes initial_state @ map p_num_vars (take k problems)"
    and o: "o' = Inr () \<longrightarrow> k = length problems"
    by blast
  from assms run have st: "st = st'"
    and out: "\<And>szs tms ans. out = Inr (szs, tms, ans) \<Longrightarrow> o' = Inr () \<and> szs = sizes st'"
    by (auto simp: run_ksat_cases_def split: sum.splits)
  have "k \<le> length problems \<and> length ts = k \<and> length bs = k \<and>
           csv_rows st = Header csv_header #
             map (\<lambda>(p, t, b). Row (p_num_vars p) (p_num_clauses p) t b (p_satisfiability p))
               (zip (take k problems) (zip ts bs)) \<and>
           sizes st = map p_num_vars (take k problems) \<and>
           (\<forall>szs tms ans. out = Inr (szs, tms, ans) \<longrightarrow>
              k = length problems \<and> szs = map p_num_vars problems)"
    using k r z o st out by (auto simp: initial_state_def result_rows_def)
  then show ?thesis by blast
qed

theorem runner_records_declared_count_witness:
  "run_ksat_cases ticking_clock [overdeclared_problem] =
     (Inr ([5], [1], [True]),
      \<lparr>clock_reads = 2, sizes = [5], times_list = [1], answers = [True],
       csv_rows = [Header csv_header, Row 5 1 1 True None],
       stdout = [Status 5 1 1 True None]\<rparr>) \<and>
   [Header csv_header, Row 5 1 1 True None] = Header csv_header #
      map (\<lambda>(p, t, b). Row (p_num_vars p) (p_num_clauses p) t b (p_satisfiability p))
        (zip (take 1 [overdeclared_problem]) (zip [1] [True])) \<and>
   [5] = map p_num_vars (take 1 [overdeclared_problem])"
proof -
  have run: "run_ksat_cases ticking_clock [overdeclared_problem] =
     (Inr ([5], [1], [True]),
      \<lparr>clock_reads = 2, sizes = [5], times_list = [1], answers = [True],
       csv_rows = [Header csv_header, Row 5 1 1 True None],
       stdout = [Status 5 1 1 True None]\<rparr>)"
    by (simp add: run_ksat_cases_def initial_state_def overdeclared_problem_def
      time_solver_Inr[OF solve_unit] mismatch_def record_result_def ticking_clock_def)
  from runner_records_declared_count[OF run] run show ?thesis
    by (simp add: overdeclared_problem_def)
qed

text \<open>
  C4. Let the problems \<open>ps\<close> before \<open>p\<close> all pass the mismatch check, so that the run
  reaches \<open>p\<close>, and let the solver give \<open>b\<close> on \<open>p\<close>. Then the run is aborted on
  \<open>p\<close> (it ends in SystemExit having written the header, the records of \<open>ps\<close> and
  the record of \<open>p\<close>, and no more) if and only if \<open>b\<close> is true and the label is
  \<open>'U'\<close>, or \<open>b\<close> is false and the label is \<open>'S'\<close>. With any other label, or none,
  the right-hand side is false whatever \<open>b\<close> is: the run is not aborted on \<open>p\<close>.
\<close>

theorem runner_aborts_iff_mismatch:
  assumes reach: "\<forall>q\<in>set ps. \<exists>c. solve (p_clauses q) = Inr c \<and> \<not> mismatch c (p_satisfiability q)"
    and res: "solve (p_clauses p) = Inr b"
  shows "(\<exists>st. run_ksat_cases clock (ps @ p # qs) = (Inl (SystemExit exit_message), st) \<and>
               length (csv_rows st) = length ps + 2) \<longleftrightarrow>
         ((b \<and> p_satisfiability p = Some ''U'') \<or> (\<not> b \<and> p_satisfiability p = Some ''S''))"
proof -
  from reach have cons: "\<forall>q\<in>set ps. consistent q" by (auto simp: consistent_def)
  let ?st = "all_processed clock ps initial_state"
  have rows: "length (csv_rows ?st) = length ps + 1"
    using all_processed_fields[of clock ps initial_state] by (simp add: initial_state_def)
  have start: "run_loop clock (ps @ p # qs) initial_state = run_loop clock (p # qs) ?st"
    by (rule run_loop_consistent[OF cons])
  show ?thesis
  proof (cases "mismatch b (p_satisfiability p)")
    case True
    from run_loop_abort[OF res True, of clock qs ?st] start rows
    have "\<exists>st. run_ksat_cases clock (ps @ p # qs) = (Inl (SystemExit exit_message), st) \<and>
               length (csv_rows st) = length ps + 2"
      by (simp add: run_ksat_cases_def processed_def record_result_def)
    with True show ?thesis by (simp add: mismatch_def)
  next
    case False
    let ?st1 = "processed clock p b ?st"
    have rows1: "length (csv_rows ?st1) = length ps + 2"
      using rows by (simp add: processed_def record_result_def)
    from run_loop_continue[OF res False, of clock qs ?st] start
    have cont: "run_loop clock (ps @ p # qs) initial_state = run_loop clock qs ?st1" by simp
    from False have nm: "\<not> ((b \<and> p_satisfiability p = Some ''U'') \<or>
        (\<not> b \<and> p_satisfiability p = Some ''S''))"
      by (simp add: mismatch_def)
    have "\<not> (\<exists>st. run_ksat_cases clock (ps @ p # qs) = (Inl (SystemExit exit_message), st) \<and>
               length (csv_rows st) = length ps + 2)"
    proof
      assume "\<exists>st. run_ksat_cases clock (ps @ p # qs) = (Inl (SystemExit exit_message), st) \<and>
               length (csv_rows st) = length ps + 2"
      then obtain st where r: "run_ksat_cases clock (ps @ p # qs) = (Inl (SystemExit exit_message), st)"
        and l: "length (csv_rows st) = length ps + 2" by blast
      from r cont have "run_loop clock qs ?st1 = (Inl (SystemExit exit_message), st)"
        by (auto simp: run_ksat_cases_def split: prod.splits sum.splits)
      from run_loop_rows_grow[OF this, of exit_message] rows1 l show False by simp
    qed
    with nm show ?thesis by blast
  qed
qed

theorem runner_aborts_iff_mismatch_witness:
  "solve (p_clauses unit_problem) = Inr True \<and>
   \<not> mismatch True (p_satisfiability unit_problem) \<and>
   solve (p_clauses mislabelled_problem) = Inr True \<and>
   p_satisfiability mislabelled_problem = Some ''U'' \<and>
   (\<exists>st. run_ksat_cases ticking_clock ([unit_problem] @ mislabelled_problem # [unit_problem]) =
            (Inl (SystemExit exit_message), st) \<and>
         length (csv_rows st) = length [unit_problem] + 2)"
proof -
  have reach: "\<forall>q\<in>set [unit_problem]. \<exists>c. solve (p_clauses q) = Inr c \<and>
      \<not> mismatch c (p_satisfiability q)"
    using unit_problem_consistent by auto
  have res: "solve (p_clauses mislabelled_problem) = Inr True"
    using mislabelled_problem_mismatch by simp
  have lab: "p_satisfiability mislabelled_problem = Some ''U''"
    by (simp add: mislabelled_problem_def)
  from runner_aborts_iff_mismatch[OF reach res, of ticking_clock "[unit_problem]"] lab
  have "\<exists>st. run_ksat_cases ticking_clock ([unit_problem] @ mislabelled_problem # [unit_problem]) =
            (Inl (SystemExit exit_message), st) \<and>
         length (csv_rows st) = length [unit_problem] + 2"
    by simp
  with unit_problem_consistent res lab show ?thesis by blast
qed

text \<open>
  C5. Let the problem at position \<open>k\<close> (counting from 0) be the first whose solver
  result contradicts its label, the solver giving a boolean on every problem up to it.
  Then the run ends in SystemExit, and the CSV file holds the header and exactly
  \<open>k + 1\<close> Result Records: those of the problems at positions \<open>0..k\<close>, in input order,
  each with the elapsed time between its two clock readings and the solver's answer.
  No record of a later problem is written.
\<close>

theorem runner_stops_at_first_mismatch:
  assumes k: "k < length problems"
    and before: "\<forall>j<k. \<exists>c. solve (p_clauses (problems ! j)) = Inr c \<and>
                        \<not> mismatch c (p_satisfiability (problems ! j))"
    and at_k: "solve (p_clauses (problems ! k)) = Inr b"
    and mm: "mismatch b (p_satisfiability (problems ! k))"
  shows "\<exists>st. run_ksat_cases clock problems = (Inl (SystemExit exit_message), st) \<and>
           csv_rows st = Header csv_header #
             map (\<lambda>j. Row (p_num_vars (problems ! j)) (p_num_clauses (problems ! j))
                        (clock (2 * j + 1) - clock (2 * j))
                        (solve (p_clauses (problems ! j)) = Inr True)
                        (p_satisfiability (problems ! j))) [0..<k + 1]"
proof -
  let ?ps = "take k problems" and ?p = "problems ! k" and ?qs = "drop (Suc k) problems"
  have split: "problems = ?ps @ ?p # ?qs" using k by (rule id_take_nth_drop)
  have cons: "\<forall>q\<in>set ?ps. consistent q"
  proof
    fix q assume "q \<in> set ?ps"
    then obtain j where "j < k" "q = problems ! j"
      using k by (auto simp: in_set_conv_nth)
    with before show "consistent q" by (auto simp: consistent_def)
  qed
  let ?st = "all_processed clock ?ps initial_state"
  have len: "length ?ps = k" using k by simp
  note f = all_processed_fields[of clock ?ps initial_state, unfolded len]
  have "run_loop clock (?ps @ ?p # ?qs) initial_state = run_loop clock (?p # ?qs) ?st"
    by (rule run_loop_consistent[OF cons])
  with split have run: "run_loop clock problems initial_state =
      (Inl (SystemExit exit_message),
       (processed clock ?p b ?st)\<lparr>stdout := stdout (processed clock ?p b ?st) @
          [Mismatch b (p_satisfiability ?p)]\<rparr>)"
    using run_loop_abort[OF at_k mm, of clock ?qs ?st] by simp
  have nth: "map (\<lambda>j. Row (p_num_vars (?ps ! j)) (p_num_clauses (?ps ! j))
                 (clock (2 * j + 1) - clock (2 * j))
                 (answer (?ps ! j)) (p_satisfiability (?ps ! j))) [0..<k]
      = map (\<lambda>j. Row (p_num_vars (problems ! j)) (p_num_clauses (problems ! j))
                 (clock (2 * j + 1) - clock (2 * j))
                 (answer (problems ! j)) (p_satisfiability (problems ! j))) [0..<k]"
    by simp
  have "csv_rows (processed clock ?p b ?st) = Header csv_header #
             map (\<lambda>j. Row (p_num_vars (problems ! j)) (p_num_clauses (problems ! j))
                        (clock (2 * j + 1) - clock (2 * j))
                        (answer (problems ! j))
                        (p_satisfiability (problems ! j))) [0..<k + 1]"
    using f nth answer_eq[OF at_k]
    by (simp add: processed_def record_result_def initial_state_def)
  with run show ?thesis by (simp add: run_ksat_cases_def answer_def)
qed

theorem runner_stops_at_first_mismatch_witness:
  "(1 :: nat) < length [unit_problem, mislabelled_problem, unit_problem] \<and>
   solve (p_clauses unit_problem) = Inr True \<and>
   \<not> mismatch True (p_satisfiability unit_problem) \<and>
   solve (p_clauses mislabelled_problem) = Inr True \<and>
   mismatch True (p_satisfiability mislabelled_problem) \<and>
   (\<exists>st. run_ksat_cases ticking_clock [unit_problem, mislabelled_problem, unit_problem] =
            (Inl (SystemExit exit_message), st) \<and>
         csv_rows st = [Header csv_header, Row 1 1 1 True (Some ''S''), Row 1 1 1 True (Some ''U'')])"
proof -
  let ?ps = "[unit_problem, mislabelled_problem, unit_problem]"
  have k: "(1 :: nat) < length ?ps" by simp
  have before: "\<forall>j<1. \<exists>c. solve (p_clauses (?ps ! j)) = Inr c \<and>
      \<not> mismatch c (p_satisfiability (?ps ! j))"
    using unit_problem_consistent by auto
  have at_k: "solve (p_clauses (?ps ! 1)) = Inr True"
    and mm: "mismatch True (p_satisfiability (?ps ! 1))"
    using mislabelled_problem_mismatch by simp_all
  have up: "[0..<1 + 1] = [0, 1 :: nat]" by (simp add: upt_rec)
  from runner_stops_at_first_mismatch[OF k before at_k mm, of ticking_clock, unfolded up]
  have "\<exists>st. run_ksat_cases ticking_clock ?ps = (Inl (SystemExit exit_message), st) \<and>
         csv_rows st = [Header csv_header, Row 1 1 1 True (Some ''S''), Row 1 1 1 True (Some ''U'')]"
    by (simp add: unit_problem_def mislabelled_problem_def solve_unit ticking_clock_def)
  with k unit_problem_consistent mislabelled_problem_mismatch show ?thesis by blast
qed

text \<open>
  C7, as claimed: without mismatches every elapsed time is at least 0. The elapsed time
  is the difference of two readings of the wall clock; when the clock is set back
  between them (first reading 5, second reading 3) the runner returns the time -2 for a
  problem that passes the mismatch check.
\<close>

theorem runner_returns_parallel_sequences_counterexample:
  "solve (p_clauses unit_problem) = Inr True \<and>
   \<not> mismatch True (p_satisfiability unit_problem) \<and>
   fst (run_ksat_cases backwards_clock [unit_problem]) = Inr ([1], [- 2], [True])"
  by (simp add: run_ksat_cases_def initial_state_def unit_problem_def
      time_solver_Inr[OF solve_unit] mismatch_def record_result_def backwards_clock_def
      solve_unit)

text \<open>
  C7, amended: when the solver gives on every problem a boolean that does not contradict
  the label, the run returns three lists as long as the input, in input order: the
  declared variable counts, the elapsed times (for the problem at position \<open>j\<close> the
  reading \<open>2j + 1\<close> minus the reading \<open>2j\<close>) and the solver's answers. Every elapsed
  time is at least 0 provided the clock did not go back between the two readings around
  each search.
\<close>

theorem runner_returns_parallel_sequences:
  assumes "\<forall>p\<in>set problems. \<exists>b. solve (p_clauses p) = Inr b \<and> \<not> mismatch b (p_satisfiability p)"
  shows "\<exists>szs ts ans st. run_ksat_cases clock problems = (Inr (szs, ts, ans), st) \<and>
           length szs = length problems \<and> length ts = length problems \<and>
           length ans = length problems \<and>
           szs = map p_num_vars problems \<and>
           ts = map (\<lambda>j. clock (2 * j + 1) - clock (2 * j)) [0..<length problems] \<and>
           ans = map (\<lambda>p. solve (p_clauses p) = Inr True) problems \<and>
           ((\<forall>j<length problems. clock (2 * j) \<le> clock (2 * j + 1)) \<longrightarrow> (\<forall>t\<in>set ts. 0 \<le> t))"
proof -
  from assms have cons: "\<forall>q\<in>set problems. consistent q" by (auto simp: consistent_def)
  let ?st = "all_processed clock problems initial_state"
  from run_loop_consistent[OF cons, of clock "[]" initial_state]
  have run: "run_loop clock problems initial_state = (Inr (), ?st)" by simp
  note f = all_processed_fields[of clock problems initial_state]
  have "run_ksat_cases clock problems =
      (Inr (map p_num_vars problems,
            map (\<lambda>j. clock (2 * j + 1) - clock (2 * j)) [0..<length problems],
            map (\<lambda>p. solve (p_clauses p) = Inr True) problems), ?st)"
    using run f by (simp add: run_ksat_cases_def initial_state_def answer_def[abs_def])
  then show ?thesis by auto
qed

theorem runner_returns_parallel_sequences_witness:
  "solve (p_clauses unit_problem) = Inr True \<and>
   \<not> mismatch True (p_satisfiability unit_problem) \<and>
   ticking_clock 0 \<le> ticking_clock 1 \<and> ticking_clock 2 \<le> ticking_clock 3 \<and>
   (\<exists>st. run_ksat_cases ticking_clock [unit_problem, unit_problem] =
            (Inr ([1, 1], [1, 1], [True, True]), st))"
proof -
  have cons: "\<forall>p\<in>set [unit_problem, unit_problem]. \<exists>b. solve (p_clauses p) = Inr b \<and>
      \<not> mismatch b (p_satisfiability p)"
    using unit_problem_consistent by auto
  have up: "[0..<length [unit_problem, unit_problem]] = [0, 1 :: nat]" by (simp add: upt_rec)
  from runner_returns_parallel_sequences[OF cons, of ticking_clock, unfolded up]
  have "\<exists>st. run_ksat_cases ticking_clock [unit_problem, unit_problem] =
            (Inr ([1, 1], [1, 1], [True, True]), st)"
    by (simp add: unit_problem_def solve_unit ticking_clock_def)
  moreover have "ticking_clock 0 \<le> ticking_clock 1 \<and> ticking_clock 2 \<le> ticking_clock 3"
    by (simp add: ticking_clock_def)
  ultimately show ?thesis using unit_problem_consistent by blast
qed

section \<open>Further properties of the search\<close>

text \<open>
  When a clause set contains an empty clause and at least one literal, the constructor
  succeeds and the search returns false: the empty clause has no true literal at any
  leaf.
\<close>

theorem search_empty_clause_false:
  assumes "[] \<in> set cls" and "concat cls \<noteq> []"
  shows "solve cls = Inr False"
proof -
  have "\<not> spec_satisfies vs cls" for vs
    using assms(1) by (auto simp: spec_satisfies_def list_all_iff intro!: bexI[of _ "[]"])
  with solve_Inr[OF assms(2)] show ?thesis by simp
qed

theorem search_empty_clause_false_witness:
  "[] \<in> set [[], [1 :: int]] \<and> concat [[], [1 :: int]] \<noteq> [] \<and> solve [[], [1]] = Inr False"
  using search_empty_clause_false[of "[[], [1]]"] by simp

text \<open>
  The three worked examples of the specification: the clause \<open>[1]\<close> is satisfiable,
  the clauses \<open>[1], [-1]\<close> are not, and the clauses \<open>[1, 2], [-1, -2]\<close> are.
\<close>

theorem search_worked_examples:
  "solve [[1]] = Inr True \<and> solve [[1], [- 1]] = Inr False \<and>
   solve [[1, 2], [- 1, - 2]] = Inr True"
proof -
  have one: "\<exists>vs. length vs = nat (Max (abs ` set (concat [[1 :: int]]))) \<and>
      spec_satisfies vs [[1]]"
    by (rule exI[of _ "[True]"]) (simp add: spec_satisfies_def spec_literal_true_def)
  have two: "\<not> spec_satisfies vs [[1], [- 1]]" for vs
    by (simp add: spec_satisfies_def spec_literal_true_def)
  have three: "\<exists>vs. length vs = nat (Max (abs ` set (concat [[1, 2], [- 1, - 2 :: int]]))) \<and>
      spec_satisfies vs [[1, 2], [- 1, - 2]]"
    by (rule exI[of _ "[True, False]"]) (simp add: spec_satisfies_def spec_literal_true_def)
  from solve_Inr[of "[[1]]"] one have "solve [[1]] = Inr True" by simp
  moreover from solve_Inr[of "[[1], [- 1]]"] two have "solve [[1], [- 1]] = Inr False" by simp
  moreover from solve_Inr[of "[[1, 2], [- 1, - 2]]"] three
  have "solve [[1, 2], [- 1, - 2]] = Inr True" by simp
  ultimately show ?thesis by blast
qed

text \<open>
  The variable count the engine derives from a clause set with at least one literal is
  the largest literal magnitude: no literal exceeds it and some literal attains it. The
  constructor is given the clauses only, so a declared count cannot influence it.
\<close>

theorem engine_num_vars_max_magnitude:
  assumes "concat cls \<noteq> []"
  shows "\<exists>n. get_num_vars cls = Inr n \<and>
           (\<forall>clause\<in>set cls. \<forall>lit\<in>set clause. \<bar>lit\<bar> \<le> n) \<and>
           (\<exists>clause\<in>set cls. \<exists>lit\<in>set clause. \<bar>lit\<bar> = n)"
proof -
  let ?A = "abs ` set (concat cls)"
  have fin: "finite ?A" by simp
  have ne: "?A \<noteq> {}" using assms by (cases "concat cls") auto
  have ub: "\<bar>lit\<bar> \<le> Max ?A" if "clause \<in> set cls" "lit \<in> set clause" for clause lit
    using that by (intro Max_ge fin) auto
  from Max_in[OF fin ne] obtain l where l: "l \<in> set (concat cls)" "Max ?A = \<bar>l\<bar>"
    by (auto simp del: set_concat)
  from l(1) obtain clause where "clause \<in> set cls" "l \<in> set clause" by auto
  with l(2) have "\<exists>clause\<in>set cls. \<exists>lit\<in>set clause. \<bar>lit\<bar> = Max ?A"
    by (intro bexI[of _ clause] bexI[of _ l]) simp_all
  with ub get_num_vars_Inr[OF assms] show ?thesis by blast
qed

theorem engine_num_vars_max_magnitude_witness:
  "concat [[1, - 3], [2 :: int]] \<noteq> [] \<and> get_num_vars [[1, - 3], [2]] = Inr 3"
proof -
  have ne: "concat [[1, - 3], [2 :: int]] \<noteq> []" by simp
  from engine_num_vars_max_magnitude[OF ne] obtain n where
    n: "get_num_vars [[1, - 3], [2]] = Inr n" by blast
  moreover have "get_num_vars [[1, - 3], [2]] = Inr 3" by (simp add: get_num_vars_def)
  ultimately show ?thesis using ne by simp
qed

end
